theory Spec2Isabelle
  imports Complex_Main "HOL-Library.AList" "HOL-Library.Multiset" "HOL-Library.Product_Lexorder"
begin

section \<open>Shared primitives\<close>

text \<open>
  The routers of \<^verbatim>\<open>load_balancer.py\<close> are embedded as state-passing functions. Every
  operation takes the router's state and returns the state it leaves behind together
  with what the call produced: \<open>Inr v\<close> when the Python returns \<open>v\<close>, \<open>Inl e\<close> when it
  raises \<open>e\<close>. The state component of a raising call is the state at the raise, since the
  Python mutates its objects in place.

  Request sizes and capacities are Python integers (\<open>int\<close>). Clock readings
  (\<^verbatim>\<open>time.time()\<close>) and the synthetic completion times built from \<^verbatim>\<open>random.uniform\<close> are
  inputs of the operations, taken as exact numbers; only their order is looked at.
  Dictionaries keep insertion order, so they are association lists with one entry per key.
\<close>

datatype py_error = IndexError | KeyError | NameError | ZeroDivisionError

text \<open>
  Python's \<^verbatim>\<open>min(xs, key=f)\<close> on a non-empty sequence: the first element whose key is
  smallest. \<open>min_from\<close> is the scan, \<open>best\<close> the element kept so far.
\<close>

fun min_from :: "('a \<Rightarrow> 'k::linorder) \<Rightarrow> 'a \<Rightarrow> 'a list \<Rightarrow> 'a" where
  "min_from key best [] = best"
| "min_from key best (x # xs) = min_from key (if key x < key best then x else best) xs"

section \<open>Round-Robin router\<close>

record rr_state =
  rr_servers :: "string list"
  rr_capacities :: "(string \<times> int) list"
  rr_index :: nat

definition rr_init :: "(string \<times> int) list \<Rightarrow> rr_state" where
  "rr_init servers = \<lparr>rr_servers = map fst servers, rr_capacities = servers, rr_index = 0\<rparr>"

text \<open>
  \<^verbatim>\<open>RoundRobinBalancer.assign_request\<close>. Indexing the server list outside its range raises
  \<^verbatim>\<open>IndexError\<close> before anything is written; the index is advanced before the capacity is
  looked up.
\<close>

definition rr_assign_request :: "rr_state \<Rightarrow> int \<Rightarrow> rr_state \<times> (py_error + string option)" where
  "rr_assign_request s request_size =
     (if length (rr_servers s) \<le> rr_index s then (s, Inl IndexError)
      else
        let server = rr_servers s ! rr_index s;
            s1 = s\<lparr>rr_index := (rr_index s + 1) mod length (rr_servers s)\<rparr>
        in case map_of (rr_capacities s) server of
             None \<Rightarrow> (s1, Inl KeyError)
           | Some cap \<Rightarrow> if request_size > cap then (s1, Inr None) else (s1, Inr (Some server)))"

text \<open>The states a Round-Robin router over a non-empty pool can be in.\<close>

definition rr_wf :: "rr_state \<Rightarrow> bool" where
  "rr_wf s = (rr_index s < length (rr_servers s) \<and> rr_servers s = map fst (rr_capacities s))"

section \<open>Least-Connections router\<close>

record lc_server =
  connections :: int
  lc_capacity :: int
  lc_current_load :: int
  lc_active_requests :: "(real \<times> int) list"

record lc_state =
  lc_servers :: "(string \<times> lc_server) list"

definition lc_init :: "(string \<times> int) list \<Rightarrow> lc_state" where
  "lc_init servers =
     \<lparr>lc_servers = map (\<lambda>(server, cap).
        (server, \<lparr>connections = 0, lc_capacity = cap, lc_current_load = 0,
                  lc_active_requests = []\<rparr>)) servers\<rparr>"

text \<open>
  \<^verbatim>\<open>_process_completed_requests\<close>. \<open>settle\<close> is the inner loop over the completed
  requests of one server, \<open>process_server\<close> the body of the outer loop.
\<close>

fun settle :: "lc_server \<Rightarrow> (real \<times> int) list \<Rightarrow> lc_server" where
  "settle data [] = data"
| "settle data ((completion_time, sz) # rest) =
     settle (data\<lparr>connections := connections data - 1,
                  lc_current_load := lc_current_load data - sz\<rparr>) rest"

definition process_server :: "real \<Rightarrow> lc_server \<Rightarrow> lc_server" where
  "process_server current_time data =
     (let completed = filter (\<lambda>r. fst r \<le> current_time) (lc_active_requests data)
      in if completed \<noteq> []
         then (settle data completed)
                \<lparr>lc_active_requests :=
                   filter (\<lambda>r. fst r > current_time) (lc_active_requests data)\<rparr>
         else data)"

definition lc_process_completed_requests :: "real \<Rightarrow> lc_state \<Rightarrow> lc_state" where
  "lc_process_completed_requests current_time s =
     s\<lparr>lc_servers :=
         map (\<lambda>(server_name, data). (server_name, process_server current_time data))
           (lc_servers s)\<rparr>"

text \<open>
  \<^verbatim>\<open>LeastConnectionsBalancer.assign_request\<close>. \<open>current_time\<close> is the clock reading of the
  reclaim pass, \<open>completion_time\<close> the synthetic completion time given to the request.
  The eligible servers are the entries of the dictionary that pass the filter, in its
  order; the key of the \<^verbatim>\<open>min\<close> is the connection count of an entry.
\<close>

definition eligible_servers :: "lc_state \<Rightarrow> int \<Rightarrow> (string \<times> lc_server) list" where
  "eligible_servers s request_size =
     filter (\<lambda>(server, data). request_size \<le> lc_capacity data - lc_current_load data)
       (lc_servers s)"

definition lc_assign_request ::
  "real \<Rightarrow> real \<Rightarrow> lc_state \<Rightarrow> int \<Rightarrow> lc_state \<times> string option" where
  "lc_assign_request current_time completion_time s request_size =
     (let s1 = lc_process_completed_requests current_time s
      in case eligible_servers s1 request_size of
           [] \<Rightarrow> (s1, None)
         | first # others \<Rightarrow>
             let server = fst (min_from (\<lambda>(name, data). connections data) first others)
             in (s1\<lparr>lc_servers :=
                     AList.map_entry server
                       (\<lambda>data. data\<lparr>connections := connections data + 1,
                                     lc_current_load := lc_current_load data + request_size,
                                     lc_active_requests :=
                                       lc_active_requests data @ [(completion_time, request_size)]\<rparr>)
                       (lc_servers s1)\<rparr>,
                 Some server))"

text \<open>\<^verbatim>\<open>release_connection\<close>: its body is \<^verbatim>\<open>pass\<close>.\<close>

definition lc_release_connection :: "lc_state \<Rightarrow> string \<Rightarrow> int \<Rightarrow> lc_state" where
  "lc_release_connection s server request_size = s"

text \<open>
  \<^verbatim>\<open>LoadBalancer.assign_request\<close> over a Least-Connections router. The release hook is
  called when the returned server is truthy: not \<^verbatim>\<open>None\<close> and not the empty string. The
  elapsed wall-clock time of the returned pair is left out.
\<close>

definition lb_assign_request ::
  "real \<Rightarrow> real \<Rightarrow> lc_state \<Rightarrow> int \<Rightarrow> lc_state \<times> string option" where
  "lb_assign_request current_time completion_time s request_size =
     (let (s1, server) = lc_assign_request current_time completion_time s request_size
      in case server of
           None \<Rightarrow> (s1, server)
         | Some name \<Rightarrow>
             if name \<noteq> [] then (lc_release_connection s1 name request_size, server)
             else (s1, server))"

text \<open>The states of a Least-Connections router: construction, then calls.\<close>

inductive lc_reachable :: "lc_state \<Rightarrow> bool" where
  lc_start: "distinct (map fst servers) \<Longrightarrow> lc_reachable (lc_init servers)"
| lc_assign: "lc_reachable s \<Longrightarrow>
     lc_reachable (fst (lc_assign_request current_time completion_time s request_size))"
| lc_release: "lc_reachable s \<Longrightarrow> lc_reachable (lc_release_connection s server request_size)"
| lc_facade: "lc_reachable s \<Longrightarrow>
     lc_reachable (fst (lb_assign_request current_time completion_time s request_size))"

definition lc_counts_ok :: "lc_server \<Rightarrow> bool" where
  "lc_counts_ok data = (connections data = int (length (lc_active_requests data)))"

definition lc_load_ok :: "lc_server \<Rightarrow> bool" where
  "lc_load_ok data = (lc_current_load data = sum_list (map snd (lc_active_requests data)))"

section \<open>Load-Aware router\<close>

text \<open>
  A queue entry is the tuple \<^verbatim>\<open>(priority, timestamp, req_id, req_size)\<close>; Python orders
  tuples lexicographically, which is the order of nested pairs here.
\<close>

type_synonym entry = "int \<times> real \<times> nat \<times> int"

definition entry_priority :: "entry \<Rightarrow> int" where
  "entry_priority e = fst e"

definition entry_time :: "entry \<Rightarrow> real" where
  "entry_time e = fst (snd e)"

definition entry_id :: "entry \<Rightarrow> nat" where
  "entry_id e = fst (snd (snd e))"

definition entry_size :: "entry \<Rightarrow> int" where
  "entry_size e = snd (snd (snd e))"

text \<open>
  \<^verbatim>\<open>queue.PriorityQueue\<close>, unbounded: the list of its entries in the order \<^verbatim>\<open>get()\<close>
  hands them out. \<^verbatim>\<open>put\<close> inserts in order, \<^verbatim>\<open>get\<close> takes the head, \<^verbatim>\<open>qsize\<close> is the
  length, \<^verbatim>\<open>empty\<close> the test for \<open>[]\<close>.
\<close>

definition pq_put :: "entry \<Rightarrow> entry list \<Rightarrow> entry list" where
  "pq_put e q = insort e q"

record la_server =
  la_capacity :: int
  la_active_requests :: "(nat \<times> (real \<times> int)) list"
  la_current_load :: int
  la_status :: string

record la_state =
  la_servers :: "(string \<times> la_server) list"
  request_queue :: "entry list"
  request_timeout :: real
  request_counter :: nat
  completed_requests :: "nat set"

text \<open>
  What a call reads from the clock and from \<^verbatim>\<open>random.uniform\<close>: the reading of the sweep's
  first line, the reading and the completion time of the \<open>k\<close>-th pass of the queue loop,
  and the reading and the completion time of \<^verbatim>\<open>assign_request\<close> itself.
\<close>

record la_env =
  now_sweep :: real
  now_loop :: "nat \<Rightarrow> real"
  done_loop :: "nat \<Rightarrow> real"
  now_assign :: real
  done_assign :: real

datatype la_result = Placed string nat | Queued nat nat

definition la_init :: "(string \<times> int) list \<Rightarrow> real \<Rightarrow> la_state" where
  "la_init servers timeout =
     \<lparr>la_servers = map (\<lambda>(server, cap).
        (server, \<lparr>la_capacity = cap, la_active_requests = [], la_current_load = 0,
                  la_status = ''healthy''\<rparr>)) servers,
      request_queue = [], request_timeout = timeout, request_counter = 0,
      completed_requests = {}\<rparr>"

text \<open>One tick of \<^verbatim>\<open>_run_health_checks\<close>; \<open>failed\<close> says for which servers the draw fell under 0.005.\<close>

definition la_run_health_checks :: "(string \<Rightarrow> bool) \<Rightarrow> la_state \<Rightarrow> la_state" where
  "la_run_health_checks failed s =
     s\<lparr>la_servers := filter (\<lambda>(server, data). \<not> failed server) (la_servers s)\<rparr>"

text \<open>
  \<^verbatim>\<open>_update_server_states\<close>, first loop. \<open>complete_requests\<close> pops the completed ids of one
  server (\<^verbatim>\<open>pop\<close> of an absent key raises \<^verbatim>\<open>KeyError\<close>), \<open>settle_servers\<close> goes through the
  servers.
\<close>

fun complete_requests ::
  "la_server \<Rightarrow> nat set \<Rightarrow> nat list \<Rightarrow> (la_server \<times> nat set) \<times> py_error option" where
  "complete_requests server finished [] = ((server, finished), None)"
| "complete_requests server finished (req_id # rest) =
     (case map_of (la_active_requests server) req_id of
        None \<Rightarrow> ((server, finished), Some KeyError)
      | Some (end_time, sz) \<Rightarrow>
          complete_requests
            (server\<lparr>la_active_requests := AList.delete req_id (la_active_requests server),
                    la_current_load := la_current_load server - sz\<rparr>)
            (insert req_id finished) rest)"

fun settle_servers ::
  "real \<Rightarrow> (string \<times> la_server) list \<Rightarrow> nat set \<Rightarrow>
     ((string \<times> la_server) list \<times> nat set) \<times> py_error option" where
  "settle_servers current_time [] finished = (([], finished), None)"
| "settle_servers current_time ((server_name, server) # rest) finished =
     (let completed =
            map fst (filter (\<lambda>(req_id, (end_time, sz)). end_time \<le> current_time)
                       (la_active_requests server))
      in case complete_requests server finished completed of
           ((server1, finished1), Some err) \<Rightarrow>
             (((server_name, server1) # rest, finished1), Some err)
         | ((server1, finished1), None) \<Rightarrow>
             (case settle_servers current_time rest finished1 of
                ((rest1, finished2), err) \<Rightarrow> (((server_name, server1) # rest1, finished2), err)))"

text \<open>
  The feasible servers of the sweep (lines 147 to 151) and the \<^verbatim>\<open>min\<close> over them. The key
  is computed for every feasible server, so a zero capacity among them raises
  \<^verbatim>\<open>ZeroDivisionError\<close>.
\<close>

definition available_servers :: "la_state \<Rightarrow> int \<Rightarrow> (string \<times> la_server) list" where
  "available_servers s req_size =
     filter (\<lambda>(name, data). la_status data = ''healthy'' \<and>
                la_current_load data + req_size \<le> la_capacity data) (la_servers s)"

definition load_key :: "int \<Rightarrow> string \<times> la_server \<Rightarrow> real \<times> nat" where
  "load_key req_size entry =
     (real_of_int (la_current_load (snd entry) + req_size) / real_of_int (la_capacity (snd entry)),
      length (la_active_requests (snd entry)))"

definition select_server ::
  "int \<Rightarrow> string \<times> la_server \<Rightarrow> (string \<times> la_server) list \<Rightarrow> py_error + string" where
  "select_server req_size first others =
     (if list_ex (\<lambda>(name, data). la_capacity data = 0) (first # others)
      then Inl ZeroDivisionError
      else Inr (fst (min_from (load_key req_size) first others)))"

text \<open>\<^verbatim>\<open>_assign_to_server\<close>: the request is filed under the current value of the counter.\<close>

definition assign_to_server :: "nat \<Rightarrow> real \<Rightarrow> int \<Rightarrow> la_server \<Rightarrow> la_server" where
  "assign_to_server counter completion_time request_size server =
     server\<lparr>la_active_requests :=
              AList.update counter (completion_time, request_size) (la_active_requests server),
            la_current_load := la_current_load server + request_size\<rparr>"

text \<open>
  One pass of the queue loop on the entry \<open>e\<close> just taken from the queue: \<open>clock\<close> is the
  reading of line 144, \<open>temp_queue\<close> the holding queue.
\<close>

definition sweep_entry ::
  "real \<Rightarrow> real \<Rightarrow> la_state \<Rightarrow> entry list \<Rightarrow> entry \<Rightarrow>
     (la_state \<times> entry list) \<times> py_error option" where
  "sweep_entry clock completion_time s temp_queue e =
     (if clock - entry_time e > request_timeout s then ((s, temp_queue), None)
      else case available_servers s (entry_size e) of
             [] \<Rightarrow> ((s, pq_put e temp_queue), None)
           | first # others \<Rightarrow>
               (case select_server (entry_size e) first others of
                  Inl err \<Rightarrow> ((s, temp_queue), Some err)
                | Inr server_name \<Rightarrow>
                    ((s\<lparr>la_servers :=
                          AList.map_entry server_name
                            (assign_to_server (request_counter s) completion_time (entry_size e))
                            (la_servers s)\<rparr>,
                      temp_queue), None)))"

text \<open>
  The queue loop: \<open>entries\<close> is what is left in \<^verbatim>\<open>self.request_queue\<close>, \<open>k\<close> counts the passes.
\<close>

fun drain_queue ::
  "la_env \<Rightarrow> nat \<Rightarrow> entry list \<Rightarrow> la_state \<Rightarrow> entry list \<Rightarrow>
     (la_state \<times> entry list) \<times> py_error option" where
  "drain_queue env k [] s temp_queue = ((s\<lparr>request_queue := []\<rparr>, temp_queue), None)"
| "drain_queue env k (e # entries) s temp_queue =
     (case sweep_entry (now_loop env k) (done_loop env k) (s\<lparr>request_queue := entries\<rparr>)
             temp_queue e of
        (r, Some err) \<Rightarrow> (r, Some err)
      | ((s1, temp_queue1), None) \<Rightarrow> drain_queue env (Suc k) entries s1 temp_queue1)"

text \<open>The last loop: the holding queue is emptied into the request queue.\<close>

fun refill :: "entry list \<Rightarrow> entry list \<Rightarrow> entry list" where
  "refill [] q = q"
| "refill (e # temp_queue) q = refill temp_queue (pq_put e q)"

definition la_update_server_states :: "la_env \<Rightarrow> la_state \<Rightarrow> la_state \<times> py_error option" where
  "la_update_server_states env s =
     (case settle_servers (now_sweep env) (la_servers s) (completed_requests s) of
        ((servers1, finished1), Some err) \<Rightarrow>
          (s\<lparr>la_servers := servers1, completed_requests := finished1\<rparr>, Some err)
      | ((servers1, finished1), None) \<Rightarrow>
          (case drain_queue env 0 (request_queue s)
                  (s\<lparr>la_servers := servers1, completed_requests := finished1\<rparr>) [] of
             ((s2, temp_queue), Some err) \<Rightarrow> (s2, Some err)
           | ((s2, temp_queue), None) \<Rightarrow>
               (s2\<lparr>request_queue := refill temp_queue (request_queue s2)\<rparr>, None)))"

text \<open>
  The list comprehension of \<^verbatim>\<open>assign_request\<close> (lines 184 to 188). Its condition reads
  \<^verbatim>\<open>req_size\<close>, a name bound neither in \<^verbatim>\<open>assign_request\<close> (the parameter is
  \<^verbatim>\<open>request_size\<close>) nor in the module: evaluating it raises \<^verbatim>\<open>NameError\<close>. The \<^verbatim>\<open>and\<close>
  evaluates the status test first, so a server that is not healthy is passed over
  without reading the name.
\<close>

fun assign_available :: "(string \<times> la_server) list \<Rightarrow> py_error + (string \<times> la_server) list" where
  "assign_available [] = Inr []"
| "assign_available ((name, data) # rest) =
     (if la_status data = ''healthy'' then Inl NameError else assign_available rest)"

definition la_assign_request ::
  "la_env \<Rightarrow> la_state \<Rightarrow> int \<Rightarrow> int \<Rightarrow> la_state \<times> (py_error + la_result)" where
  "la_assign_request env s request_size priority =
     (case la_update_server_states env s of
        (s1, Some err) \<Rightarrow> (s1, Inl err)
      | (s1, None) \<Rightarrow>
          let current_time = now_assign env;
              s2 = s1\<lparr>request_counter := request_counter s1 + 1\<rparr>;
              req_id = request_counter s2
          in case assign_available (la_servers s2) of
               Inl err \<Rightarrow> (s2, Inl err)
             | Inr [] \<Rightarrow>
                 let s3 = s2\<lparr>request_queue :=
                              pq_put (priority, current_time, req_id, request_size)
                                (request_queue s2)\<rparr>
                 in (s3, Inr (Queued req_id (length (request_queue s3))))
             | Inr (first # others) \<Rightarrow>
                 (case select_server request_size first others of
                    Inl err \<Rightarrow> (s2, Inl err)
                  | Inr server_name \<Rightarrow>
                      (s2\<lparr>la_servers :=
                            AList.map_entry server_name
                              (assign_to_server (request_counter s2) (done_assign env) request_size)
                              (la_servers s2)\<rparr>,
                       Inr (Placed server_name req_id))))"

text \<open>
  The states of a Load-Aware router: construction, then calls of \<^verbatim>\<open>assign_request\<close>, sweeps
  on demand and ticks of the health check, taken one at a time (\<^verbatim>\<open>assign_request\<close> and the
  health check hold the router's lock for their whole duration).
\<close>

inductive la_step :: "la_state \<Rightarrow> la_state \<Rightarrow> bool" where
  step_assign: "la_step s (fst (la_assign_request env s request_size priority))"
| step_sweep: "la_step s (fst (la_update_server_states env s))"
| step_health: "la_step s (la_run_health_checks failed s)"

inductive la_reachable :: "la_state \<Rightarrow> bool" where
  la_start: "distinct (map fst servers) \<Longrightarrow> la_reachable (la_init servers timeout)"
| la_next: "la_reachable s \<Longrightarrow> la_step s t \<Longrightarrow> la_reachable t"

text \<open>
  A server with nothing placed on it, and a router none of whose servers has anything
  placed: its queue holds entries only once its registry is empty, in dequeuing order,
  with the ids handed out so far.
\<close>

definition la_idle_server :: "la_server \<Rightarrow> bool" where
  "la_idle_server data =
     (la_active_requests data = [] \<and> la_current_load data = 0 \<and> la_status data = ''healthy'')"

definition la_idle :: "la_state \<Rightarrow> bool" where
  "la_idle s =
     (list_all (\<lambda>(name, data). la_idle_server data) (la_servers s) \<and>
      (request_queue s \<noteq> [] \<longrightarrow> la_servers s = []) \<and>
      completed_requests s = {} \<and>
      sorted (request_queue s) \<and>
      list_all (\<lambda>e. entry_id e \<le> request_counter s) (request_queue s))"

text \<open>
  The order of two queue entries as the claims word it: lower priority value first, then
  earlier arrival, then lower request id.
\<close>

definition dequeues_before :: "entry \<Rightarrow> entry \<Rightarrow> bool" where
  "dequeues_before e e' =
     (entry_priority e < entry_priority e' \<or>
      (entry_priority e = entry_priority e' \<and>
        (entry_time e < entry_time e' \<or>
         (entry_time e = entry_time e' \<and> entry_id e \<le> entry_id e'))))"

text \<open>
  The readings of a call made at time \<open>t\<close> when the clock does not move during the call and
  every synthetic processing time is one unit.
\<close>

definition clock_at :: "real \<Rightarrow> la_env" where
  "clock_at t =
     \<lparr>now_sweep = t, now_loop = (\<lambda>k. t), done_loop = (\<lambda>k. t + 1), now_assign = t,
      done_assign = t + 1\<rparr>"

text \<open>
  A router whose only server the health check has removed, with one request of size 500
  queued at time 0.
\<close>

definition stranded :: la_state where
  "stranded =
     fst (la_assign_request (clock_at 0)
            (la_run_health_checks (\<lambda>server. True) (la_init [(''A'', 100)] 5)) 500 1)"

section \<open>Round-Robin: results\<close>

lemma rr_init_wf: "servers \<noteq> [] \<Longrightarrow> rr_wf (rr_init servers)"
  by (simp add: rr_wf_def rr_init_def)

lemma rr_wf_capacity:
  assumes "rr_wf s"
  shows "\<exists>cap. map_of (rr_capacities s) (rr_servers s ! rr_index s) = Some cap"
proof -
  from assms have "rr_servers s ! rr_index s \<in> fst ` set (rr_capacities s)"
    by (metis rr_wf_def nth_mem set_map)
  then show ?thesis
    by (metis map_of_eq_None_iff not_Some_eq)
qed

lemma rr_assign_request_wf:
  assumes "rr_wf s"
  shows "rr_wf (fst (rr_assign_request s request_size))"
proof -
  from assms have lt: "rr_index s < length (rr_servers s)"
    and eq: "rr_servers s = map fst (rr_capacities s)"
    unfolding rr_wf_def by blast+
  from lt have "0 < length (rr_servers s)"
    by arith
  then have "(rr_index s + 1) mod length (rr_servers s) < length (rr_servers s)"
    by (rule mod_less_divisor)
  with lt eq have "rr_wf (s\<lparr>rr_index := (rr_index s + 1) mod length (rr_servers s)\<rparr>)"
    unfolding rr_wf_def by simp
  with lt show ?thesis
    by (simp add: rr_assign_request_def Let_def split: option.splits)
qed

text \<open>
  C4. A call on a router whose index points at a server picks that server, advances the
  index modulo the server count whatever the outcome, and returns the server when the
  size is at most its configured capacity and the rejection \<open>None\<close> otherwise. The state
  changes in the index only: no load is kept. With \<open>{A:100, B:150, C:400}\<close> a size-50
  request goes to A, the following size-200 request is rejected at B, and the index then
  points at C.
\<close>

theorem rr_assign_request_cyclic:
  "(rr_wf s \<longrightarrow>
      (\<exists>cap. map_of (rr_capacities s) (rr_servers s ! rr_index s) = Some cap \<and>
         rr_assign_request s request_size =
           (s\<lparr>rr_index := (rr_index s + 1) mod length (rr_servers s)\<rparr>,
            if request_size \<le> cap then Inr (Some (rr_servers s ! rr_index s)) else Inr None)))
   \<and> (let s0 = rr_init [(''A'', 100), (''B'', 150), (''C'', 400)];
           (s1, r1) = rr_assign_request s0 50;
           (s2, r2) = rr_assign_request s1 200
       in r1 = Inr (Some ''A'') \<and> rr_index s1 = 1 \<and> r2 = Inr None \<and> rr_index s2 = 2
          \<and> rr_servers s2 ! rr_index s2 = ''C'')"
proof
  show "rr_wf s \<longrightarrow>
      (\<exists>cap. map_of (rr_capacities s) (rr_servers s ! rr_index s) = Some cap \<and>
         rr_assign_request s request_size =
           (s\<lparr>rr_index := (rr_index s + 1) mod length (rr_servers s)\<rparr>,
            if request_size \<le> cap then Inr (Some (rr_servers s ! rr_index s)) else Inr None))"
  proof
    assume wf: "rr_wf s"
    then obtain cap where cap: "map_of (rr_capacities s) (rr_servers s ! rr_index s) = Some cap"
      using rr_wf_capacity by blast
    from wf have "rr_index s < length (rr_servers s)"
      unfolding rr_wf_def by blast
    with cap show "\<exists>cap. map_of (rr_capacities s) (rr_servers s ! rr_index s) = Some cap \<and>
         rr_assign_request s request_size =
           (s\<lparr>rr_index := (rr_index s + 1) mod length (rr_servers s)\<rparr>,
            if request_size \<le> cap then Inr (Some (rr_servers s ! rr_index s)) else Inr None)"
      by (simp add: rr_assign_request_def Let_def)
  qed
next
  show "let s0 = rr_init [(''A'', 100), (''B'', 150), (''C'', 400)];
           (s1, r1) = rr_assign_request s0 50;
           (s2, r2) = rr_assign_request s1 200
       in r1 = Inr (Some ''A'') \<and> rr_index s1 = 1 \<and> r2 = Inr None \<and> rr_index s2 = 2
          \<and> rr_servers s2 ! rr_index s2 = ''C''"
    by (simp add: rr_init_def rr_assign_request_def Let_def)
qed

theorem rr_assign_request_cyclic_witness:
  "rr_wf (rr_init [(''A'', 100), (''B'', 150), (''C'', 400)]) \<and>
   rr_assign_request (rr_init [(''A'', 100), (''B'', 150), (''C'', 400)]) 50 =
     (\<lparr>rr_servers = [''A'', ''B'', ''C''],
       rr_capacities = [(''A'', 100), (''B'', 150), (''C'', 400)], rr_index = 1\<rparr>,
      Inr (Some ''A''))"
proof -
  have wf: "rr_wf (rr_init [(''A'', 100), (''B'', 150), (''C'', 400)])"
    by (simp add: rr_wf_def rr_init_def)
  from rr_assign_request_cyclic [of "rr_init [(''A'', 100), (''B'', 150), (''C'', 400)]" 50] wf
  show ?thesis
    by (simp add: rr_init_def)
qed

section \<open>Least-Connections: results\<close>

lemma min_from_mem: "min_from key best xs \<in> insert best (set xs)"
  by (induction xs arbitrary: best) auto

lemma settle_closed:
  "settle data completed =
     data\<lparr>connections := connections data - int (length completed),
          lc_current_load := lc_current_load data - sum_list (map snd completed)\<rparr>"
  by (induction data completed rule: settle.induct) simp_all

lemma length_filter_split:
  fixes t :: real
  shows "int (length (filter (\<lambda>r. fst r \<le> t) xs)) + int (length (filter (\<lambda>r. fst r > t) xs))
           = int (length xs)"
  by (induction xs) auto

lemma sum_filter_split:
  fixes t :: real and xs :: "(real \<times> int) list"
  shows "sum_list (map snd (filter (\<lambda>r. fst r \<le> t) xs))
           + sum_list (map snd (filter (\<lambda>r. fst r > t) xs)) = sum_list (map snd xs)"
  by (induction xs) auto

lemma process_server_counts: "lc_counts_ok data \<Longrightarrow> lc_counts_ok (process_server t data)"
  using length_filter_split [of t "lc_active_requests data"]
  by (simp add: lc_counts_ok_def process_server_def Let_def settle_closed)

lemma process_server_load: "lc_load_ok data \<Longrightarrow> lc_load_ok (process_server t data)"
  using sum_filter_split [of t "lc_active_requests data"]
  by (simp add: lc_load_ok_def process_server_def Let_def settle_closed)

lemma map_entry_set:
  "(n, d) \<in> set (AList.map_entry k f xs) \<Longrightarrow>
     (n, d) \<in> set xs \<or> (\<exists>d0. (n, d0) \<in> set xs \<and> d = f d0)"
  by (induction xs) (auto split: if_splits)

lemma process_all:
  "\<forall>(n, d) \<in> set (lc_servers s). P d \<Longrightarrow> (\<And>d. P d \<Longrightarrow> P (process_server t d)) \<Longrightarrow>
   \<forall>(n, d) \<in> set (lc_servers (lc_process_completed_requests t s)). P d"
  by (auto simp: lc_process_completed_requests_def)

text \<open>A property of every server that the reclaim pass and the admission keep is kept by a call.\<close>

lemma assign_all:
  assumes "\<forall>(n, d) \<in> set (lc_servers s). P d"
    and "\<And>d. P d \<Longrightarrow> P (process_server t d)"
    and "\<And>d. P d \<Longrightarrow> P (d\<lparr>connections := connections d + 1,
                                lc_current_load := lc_current_load d + sz,
                                lc_active_requests := lc_active_requests d @ [(c, sz)]\<rparr>)"
  shows "\<forall>(n, d) \<in> set (lc_servers (fst (lc_assign_request t c s sz))). P d"
proof (cases "eligible_servers (lc_process_completed_requests t s) sz")
  case Nil
  then show ?thesis
    using process_all [OF assms(1,2)] by (simp add: lc_assign_request_def)
next
  case (Cons first others)
  let ?s1 = "lc_process_completed_requests t s"
  have "P d" if "(n, d) \<in> set (AList.map_entry
            (fst (min_from (\<lambda>(name, data). connections data) first others))
            (\<lambda>d. d\<lparr>connections := connections d + 1,
                     lc_current_load := lc_current_load d + sz,
                     lc_active_requests := lc_active_requests d @ [(c, sz)]\<rparr>)
            (lc_servers ?s1))" for n d
    using map_entry_set [OF that] process_all [OF assms(1,2)] assms(3) by auto
  with Cons show ?thesis
    by (auto simp: lc_assign_request_def Let_def)
qed

lemma lb_assign_request_eq: "lb_assign_request t c s sz = lc_assign_request t c s sz"
  by (simp add: lb_assign_request_def lc_release_connection_def split: prod.splits option.splits)

lemma lc_init_all:
  "(\<And>cap. P \<lparr>connections = 0, lc_capacity = cap, lc_current_load = 0, lc_active_requests = []\<rparr>)
     \<Longrightarrow> \<forall>(n, d) \<in> set (lc_servers (lc_init servers)). P d"
  by (auto simp: lc_init_def)

lemma lc_reachable_counts: "lc_reachable s \<Longrightarrow> \<forall>(n, d) \<in> set (lc_servers s). lc_counts_ok d"
proof (induction rule: lc_reachable.induct)
  case (lc_start servers)
  show ?case by (rule lc_init_all) (simp add: lc_counts_ok_def)
next
  case (lc_assign s current_time completion_time request_size)
  from lc_assign.IH show ?case
    by (rule assign_all) (simp add: process_server_counts, simp add: lc_counts_ok_def)
next
  case (lc_release s server request_size)
  then show ?case by (simp add: lc_release_connection_def)
next
  case (lc_facade s current_time completion_time request_size)
  from lc_facade.IH show ?case
    unfolding lb_assign_request_eq
    by (rule assign_all) (simp add: process_server_counts, simp add: lc_counts_ok_def)
qed

lemma lc_reachable_load: "lc_reachable s \<Longrightarrow> \<forall>(n, d) \<in> set (lc_servers s). lc_load_ok d"
proof (induction rule: lc_reachable.induct)
  case (lc_start servers)
  show ?case by (rule lc_init_all) (simp add: lc_load_ok_def)
next
  case (lc_assign s current_time completion_time request_size)
  from lc_assign.IH show ?case
    by (rule assign_all) (simp add: process_server_load, simp add: lc_load_ok_def)
next
  case (lc_release s server request_size)
  then show ?case by (simp add: lc_release_connection_def)
next
  case (lc_facade s current_time completion_time request_size)
  from lc_facade.IH show ?case
    unfolding lb_assign_request_eq
    by (rule assign_all) (simp add: process_server_load, simp add: lc_load_ok_def)
qed

lemma lc_keys_process:
  "map fst (lc_servers (lc_process_completed_requests t s)) = map fst (lc_servers s)"
  by (simp add: lc_process_completed_requests_def case_prod_beta comp_def)

lemma lc_reachable_distinct: "lc_reachable s \<Longrightarrow> distinct (map fst (lc_servers s))"
proof (induction rule: lc_reachable.induct)
  case (lc_start servers)
  then show ?case by (simp add: lc_init_def case_prod_beta comp_def)
next
  case (lc_assign s current_time completion_time request_size)
  then show ?case
    by (simp add: lc_assign_request_def Let_def lc_keys_process distinct_map_entry
        split: list.splits)
next
  case (lc_release s server request_size)
  then show ?case by (simp add: lc_release_connection_def)
next
  case (lc_facade s current_time completion_time request_size)
  then show ?case
    by (simp add: lb_assign_request_eq lc_assign_request_def Let_def lc_keys_process
        distinct_map_entry split: list.splits)
qed

text \<open>
  C5. When \<^verbatim>\<open>assign_request\<close> returns a server, the size of the request is at most that
  server's capacity minus its current load in the state the reclaim pass left; when no
  server of that state has the room, the call returns \<open>None\<close>, and only then.
\<close>

theorem lc_assign_request_fits:
  assumes "distinct (map fst (lc_servers s))"
  shows "(case snd (lc_assign_request t c s sz) of
            Some server \<Rightarrow>
              (\<exists>data. map_of (lc_servers (lc_process_completed_requests t s)) server = Some data \<and>
                 sz \<le> lc_capacity data - lc_current_load data)
          | None \<Rightarrow>
              (\<forall>(server, data) \<in> set (lc_servers (lc_process_completed_requests t s)).
                 \<not> sz \<le> lc_capacity data - lc_current_load data))"
proof (cases "eligible_servers (lc_process_completed_requests t s) sz")
  case Nil
  then have "\<forall>(server, data) \<in> set (lc_servers (lc_process_completed_requests t s)).
                \<not> sz \<le> lc_capacity data - lc_current_load data"
    by (auto simp: eligible_servers_def filter_empty_conv)
  with Nil show ?thesis by (simp add: lc_assign_request_def)
next
  case (Cons first others)
  let ?s1 = "lc_process_completed_requests t s"
  let ?chosen = "min_from (\<lambda>(name, data). connections data) first others"
  have "?chosen \<in> set (first # others)"
    using min_from_mem [of "\<lambda>(name, data). connections data" first others] by simp
  then have "?chosen \<in> set (eligible_servers ?s1 sz)"
    using Cons by simp
  then have d: "(fst ?chosen, snd ?chosen) \<in> set (lc_servers ?s1)"
      "sz \<le> lc_capacity (snd ?chosen) - lc_current_load (snd ?chosen)"
    by (auto simp: eligible_servers_def)
  from assms have "distinct (map fst (lc_servers ?s1))"
    by (simp add: lc_keys_process)
  then have "map_of (lc_servers ?s1) (fst ?chosen) = Some (snd ?chosen)"
    using d(1) by (rule map_of_is_SomeI)
  with d(2) Cons show ?thesis
    by (simp add: lc_assign_request_def Let_def)
qed

theorem lc_assign_request_fits_witness:
  "distinct (map fst (lc_servers (lc_init [(''A'', 100), (''B'', 150)]))) \<and>
   snd (lc_assign_request 0 1 (lc_init [(''A'', 100), (''B'', 150)]) 120) = Some ''B'' \<and>
   (\<exists>data. map_of (lc_servers (lc_process_completed_requests 0
               (lc_init [(''A'', 100), (''B'', 150)]))) ''B'' = Some data \<and>
      120 \<le> lc_capacity data - lc_current_load data)"
proof -
  have d: "distinct (map fst (lc_servers (lc_init [(''A'', 100), (''B'', 150)])))"
    by (simp add: lc_init_def)
  have r: "snd (lc_assign_request 0 1 (lc_init [(''A'', 100), (''B'', 150)]) 120) = Some ''B''"
    by (simp add: lc_assign_request_def lc_init_def lc_process_completed_requests_def
        process_server_def eligible_servers_def Let_def)
  from lc_assign_request_fits [OF d, where t = 0 and c = 1 and sz = 120] d r show ?thesis
    by simp
qed

text \<open>
  C9. \<^verbatim>\<open>release_connection\<close> returns the state it was given, whatever the server and the
  size, and the facade's call over a Least-Connections router leaves the state and
  returns the server that \<^verbatim>\<open>assign_request\<close> alone does.
\<close>

theorem lc_release_connection_noop:
  "lc_release_connection s server request_size = s \<and>
   lb_assign_request current_time completion_time s request_size =
     lc_assign_request current_time completion_time s request_size"
  by (simp add: lb_assign_request_eq) (simp add: lc_release_connection_def)

theorem lc_release_connection_noop_witness:
  "lc_release_connection (fst (lc_assign_request 0 1 (lc_init [(''A'', 100)]) 50)) ''A'' 50 =
     \<lparr>lc_servers = [(''A'', \<lparr>connections = 1, lc_capacity = 100, lc_current_load = 50,
                            lc_active_requests = [(1, 50)]\<rparr>)]\<rparr>"
  using lc_release_connection_noop
    [where s = "fst (lc_assign_request 0 1 (lc_init [(''A'', 100)]) 50)" and server = "''A''"
       and request_size = 50 and current_time = 0 and completion_time = 0]
  by (simp add: lc_assign_request_def lc_init_def lc_process_completed_requests_def
      process_server_def eligible_servers_def Let_def)

text \<open>
  C10. In every state of a Least-Connections router (after construction and after every
  call), the connection counter of each server is the length of its list of active
  requests.
\<close>

theorem lc_connections_count:
  "lc_reachable s \<Longrightarrow>
     \<forall>(name, data) \<in> set (lc_servers s). connections data = int (length (lc_active_requests data))"
  using lc_reachable_counts [of s] by (simp add: lc_counts_ok_def)

theorem lc_connections_count_witness:
  "lc_reachable (fst (lc_assign_request 0 1 (lc_init [(''A'', 100), (''B'', 150)]) 50)) \<and>
   list_all (\<lambda>(name, data). connections data = int (length (lc_active_requests data)))
     (lc_servers (fst (lc_assign_request 0 1 (lc_init [(''A'', 100), (''B'', 150)]) 50)))"
proof -
  have "lc_reachable (lc_init [(''A'', 100), (''B'', 150)])"
    by (rule lc_start) simp
  then have r: "lc_reachable (fst (lc_assign_request 0 1 (lc_init [(''A'', 100), (''B'', 150)]) 50))"
    by (rule lc_assign)
  from lc_connections_count [OF r] r show ?thesis
    unfolding list_all_iff by blast
qed

section \<open>Load-Aware: the sweep\<close>

lemma sweep_entry_frame:
  assumes "sweep_entry clock completion_time s temp_queue e = ((s1, temp_queue1), err)"
  shows "request_queue s1 = request_queue s" and "request_counter s1 = request_counter s"
    and "request_timeout s1 = request_timeout s" and "completed_requests s1 = completed_requests s"
  using assms
  by (auto simp: sweep_entry_def split: if_splits list.splits sum.splits)

lemma sweep_entry_temp:
  assumes "sweep_entry clock completion_time s temp_queue e = ((s1, temp_queue1), err)"
  shows "temp_queue1 = temp_queue \<or>
         (temp_queue1 = pq_put e temp_queue \<and> \<not> clock - entry_time e > request_timeout s)"
  using assms
  by (auto simp: sweep_entry_def split: if_splits list.splits sum.splits)

lemma sweep_entry_expired:
  "clock - entry_time e > request_timeout s \<Longrightarrow>
     sweep_entry clock completion_time s temp_queue e = ((s, temp_queue), None)"
  by (simp add: sweep_entry_def)

lemma sweep_entry_infeasible:
  "\<not> clock - entry_time e > request_timeout s \<Longrightarrow> available_servers s (entry_size e) = [] \<Longrightarrow>
     sweep_entry clock completion_time s temp_queue e = ((s, pq_put e temp_queue), None)"
  by (simp add: sweep_entry_def)

lemma set_pq_put: "set (pq_put e q) = insert e (set q)"
  by (simp add: pq_put_def set_insort_key)

lemma sorted_pq_put: "sorted q \<Longrightarrow> sorted (pq_put e q)"
  by (simp add: pq_put_def sorted_insort)

lemma set_refill: "set (refill temp_queue q) = set temp_queue \<union> set q"
  by (induction temp_queue arbitrary: q) (auto simp: set_pq_put)

lemma sorted_refill: "sorted q \<Longrightarrow> sorted (refill temp_queue q)"
  by (induction temp_queue arbitrary: q) (auto simp: sorted_pq_put)

text \<open>What the queue loop leaves, on any state.\<close>

lemma drain_queue_frame:
  assumes "drain_queue env k entries s temp_queue = ((s1, temp_queue1), err)"
  shows "set (request_queue s1) \<subseteq> set entries \<and>
         set temp_queue1 \<subseteq> set temp_queue \<union> set entries \<and>
         request_counter s1 = request_counter s \<and>
         request_timeout s1 = request_timeout s \<and>
         completed_requests s1 = completed_requests s \<and>
         (err = None \<longrightarrow> request_queue s1 = []) \<and>
         (sorted temp_queue \<longrightarrow> sorted temp_queue1)"
  using assms
proof (induction entries arbitrary: k s temp_queue)
  case Nil
  then show ?case by auto
next
  case (Cons e entries)
  obtain s2 temp_queue2 err2 where
    step: "sweep_entry (now_loop env k) (done_loop env k) (s\<lparr>request_queue := entries\<rparr>)
             temp_queue e = ((s2, temp_queue2), err2)"
    by (metis surj_pair)
  note fr = sweep_entry_frame [OF step] and tq = sweep_entry_temp [OF step]
  show ?case
  proof (cases err2)
    case None
    with Cons.prems step have "drain_queue env (Suc k) entries s2 temp_queue2 = ((s1, temp_queue1), err)"
      by simp
    from Cons.IH [OF this] fr tq show ?thesis
      by (auto simp: set_pq_put sorted_pq_put)
  next
    case (Some err3)
    with Cons.prems step have "s1 = s2" "temp_queue1 = temp_queue2" "err = Some err3"
      by simp_all
    with fr tq show ?thesis
      by (auto simp: set_pq_put sorted_pq_put)
  qed
qed

text \<open>An entry that is expired at every reading of the loop never enters the holding queue.\<close>

lemma drain_queue_expired:
  assumes "drain_queue env k entries s temp_queue = ((s1, temp_queue1), err)"
    and "\<forall>j. now_loop env j - entry_time e > request_timeout s"
    and "e \<notin> set temp_queue"
  shows "e \<notin> set temp_queue1"
  using assms
proof (induction entries arbitrary: k s temp_queue)
  case Nil
  then show ?case by auto
next
  case (Cons e' entries)
  obtain s2 temp_queue2 err2 where
    step: "sweep_entry (now_loop env k) (done_loop env k) (s\<lparr>request_queue := entries\<rparr>)
             temp_queue e' = ((s2, temp_queue2), err2)"
    by (metis surj_pair)
  note fr = sweep_entry_frame [OF step] and tq = sweep_entry_temp [OF step]
  from tq Cons.prems(2,3) have notin: "e \<notin> set temp_queue2"
    by (auto simp: set_pq_put)
  show ?case
  proof (cases err2)
    case None
    with Cons.prems step have "drain_queue env (Suc k) entries s2 temp_queue2 = ((s1, temp_queue1), err)"
      by simp
    from Cons.IH [OF this _ notin] Cons.prems(2) fr show ?thesis
      by simp
  next
    case (Some err3)
    with Cons.prems step have "temp_queue1 = temp_queue2"
      by simp
    with notin show ?thesis by simp
  qed
qed

lemma sweep_queue_subset:
  "set (request_queue (fst (la_update_server_states env s))) \<subseteq> set (request_queue s)"
proof -
  obtain servers1 finished1 err1 where
    st: "settle_servers (now_sweep env) (la_servers s) (completed_requests s)
           = ((servers1, finished1), err1)"
    by (metis surj_pair)
  let ?s = "s\<lparr>la_servers := servers1, completed_requests := finished1\<rparr>"
  obtain s2 temp_queue err2 where
    dr: "drain_queue env 0 (request_queue s) ?s [] = ((s2, temp_queue), err2)"
    by (metis surj_pair)
  from drain_queue_frame [OF dr]
  have "set (request_queue s2) \<subseteq> set (request_queue s)"
    and "set (refill temp_queue (request_queue s2)) \<subseteq> set (request_queue s)"
    by (auto simp: set_refill)
  with st dr show ?thesis
    by (cases err1; cases err2) (simp_all add: la_update_server_states_def)
qed

lemma sweep_counter:
  "request_counter (fst (la_update_server_states env s)) = request_counter s"
proof -
  obtain servers1 finished1 err1 where
    st: "settle_servers (now_sweep env) (la_servers s) (completed_requests s)
           = ((servers1, finished1), err1)"
    by (metis surj_pair)
  let ?s = "s\<lparr>la_servers := servers1, completed_requests := finished1\<rparr>"
  obtain s2 temp_queue err2 where
    dr: "drain_queue env 0 (request_queue s) ?s [] = ((s2, temp_queue), err2)"
    by (metis surj_pair)
  from drain_queue_frame [OF dr] have "request_counter s2 = request_counter s"
    by simp
  with st dr show ?thesis
    by (cases err1; cases err2) (simp_all add: la_update_server_states_def)
qed

text \<open>
  A sweep that runs to its end drops every entry that is expired at each of its clock
  readings, on any state.
\<close>

lemma sweep_drops_expired:
  assumes "snd (la_update_server_states env s) = None"
    and "\<forall>j. now_loop env j - entry_time e > request_timeout s"
  shows "e \<notin> set (request_queue (fst (la_update_server_states env s)))"
proof -
  obtain servers1 finished1 err1 where
    st: "settle_servers (now_sweep env) (la_servers s) (completed_requests s)
           = ((servers1, finished1), err1)"
    by (metis surj_pair)
  let ?s = "s\<lparr>la_servers := servers1, completed_requests := finished1\<rparr>"
  obtain s2 temp_queue err2 where
    dr: "drain_queue env 0 (request_queue s) ?s [] = ((s2, temp_queue), err2)"
    by (metis surj_pair)
  from assms(1) st dr have none: "err1 = None" "err2 = None"
    by (cases err1; cases err2; simp add: la_update_server_states_def)+
  from drain_queue_frame [OF dr] none have empty: "request_queue s2 = []"
    by simp
  from assms(2) have "\<forall>j. now_loop env j - entry_time e > request_timeout ?s"
    by simp
  from drain_queue_expired [OF dr this] have "e \<notin> set temp_queue"
    by simp
  with st dr none empty show ?thesis
    by (simp add: la_update_server_states_def set_refill)
qed

section \<open>Load-Aware: the states the router reaches\<close>

lemma settle_servers_idle:
  "list_all (\<lambda>(name, data). la_idle_server data) servers \<Longrightarrow>
     settle_servers t servers finished = ((servers, finished), None)"
  by (induction servers arbitrary: finished) (auto simp: la_idle_server_def)

lemma assign_available_idle:
  "list_all (\<lambda>(name, data). la_idle_server data) servers \<Longrightarrow>
     assign_available servers = (if servers = [] then Inr [] else Inl NameError)"
  by (cases servers) (auto simp: la_idle_server_def)

lemma drain_queue_no_servers:
  "la_servers s = [] \<Longrightarrow>
     \<exists>temp_queue1. drain_queue env k entries s temp_queue
        = ((s\<lparr>request_queue := []\<rparr>, temp_queue1), None)"
proof (induction entries arbitrary: k s temp_queue)
  case Nil
  then show ?case by simp
next
  case (Cons e entries)
  let ?s = "s\<lparr>request_queue := entries\<rparr>"
  from Cons.prems have av: "available_servers ?s (entry_size e) = []"
    by (simp add: available_servers_def)
  from Cons.prems have srv: "la_servers ?s = []"
    by simp
  have restored: "?s\<lparr>request_queue := []\<rparr> = s\<lparr>request_queue := []\<rparr>"
    by simp
  show ?case
  proof (cases "now_loop env k - entry_time e > request_timeout ?s")
    case True
    from Cons.IH [OF srv, of "Suc k" temp_queue] sweep_entry_expired [OF True] restored
    show ?thesis by simp
  next
    case False
    from Cons.IH [OF srv, of "Suc k" "pq_put e temp_queue"] sweep_entry_infeasible [OF False av] restored
    show ?thesis by simp
  qed
qed

text \<open>With no server, the loop keeps every entry that is not expired at any reading.\<close>

lemma drain_queue_keeps:
  assumes "la_servers s = []"
    and "drain_queue env k entries s temp_queue = ((s1, temp_queue1), err)"
    and "\<forall>j. \<not> now_loop env j - entry_time e > request_timeout s"
    and "e \<in> set entries \<union> set temp_queue"
  shows "e \<in> set temp_queue1"
  using assms
proof (induction entries arbitrary: k s temp_queue)
  case Nil
  then show ?case by auto
next
  case (Cons e' entries)
  let ?s = "s\<lparr>request_queue := entries\<rparr>"
  from Cons.prems(1) have av: "available_servers ?s (entry_size e') = []"
    by (simp add: available_servers_def)
  from Cons.prems(1) have srv: "la_servers ?s = []"
    by simp
  from Cons.prems(3) have live: "\<forall>j. \<not> now_loop env j - entry_time e > request_timeout ?s"
    by simp
  show ?case
  proof (cases "now_loop env k - entry_time e' > request_timeout ?s")
    case True
    with Cons.prems(3) have "e \<noteq> e'" by auto
    with Cons.prems(4) have mem: "e \<in> set entries \<union> set temp_queue" by auto
    from Cons.prems(2) sweep_entry_expired [OF True]
    have "drain_queue env (Suc k) entries ?s temp_queue = ((s1, temp_queue1), err)"
      by simp
    from Cons.IH [OF srv this live mem] show ?thesis .
  next
    case False
    from Cons.prems(4) have mem: "e \<in> set entries \<union> set (pq_put e' temp_queue)"
      by (auto simp: set_pq_put)
    from Cons.prems(2) sweep_entry_infeasible [OF False av]
    have "drain_queue env (Suc k) entries ?s (pq_put e' temp_queue) = ((s1, temp_queue1), err)"
      by simp
    from Cons.IH [OF srv this live mem] show ?thesis .
  qed
qed

text \<open>On an idle router the sweep changes the queue only, and raises nothing.\<close>

lemma sweep_idle:
  assumes "la_idle s"
  shows "\<exists>q. la_update_server_states env s = (s\<lparr>request_queue := q\<rparr>, None) \<and>
           set q \<subseteq> set (request_queue s) \<and> sorted q \<and> (la_servers s \<noteq> [] \<longrightarrow> q = [])"
proof -
  from assms have st: "settle_servers (now_sweep env) (la_servers s) (completed_requests s)
      = ((la_servers s, completed_requests s), None)"
    by (simp add: la_idle_def settle_servers_idle)
  have same: "s\<lparr>la_servers := la_servers s, completed_requests := completed_requests s\<rparr> = s"
    by simp
  have "\<exists>temp_queue. drain_queue env 0 (request_queue s) s []
          = ((s\<lparr>request_queue := []\<rparr>, temp_queue), None)"
  proof (cases "la_servers s = []")
    case True
    then show ?thesis by (rule drain_queue_no_servers)
  next
    case False
    with assms have "request_queue s = []"
      by (auto simp: la_idle_def)
    then show ?thesis by simp
  qed
  then obtain temp_queue where
    dr: "drain_queue env 0 (request_queue s) s [] = ((s\<lparr>request_queue := []\<rparr>, temp_queue), None)"
    by blast
  from drain_queue_frame [OF dr] have temp: "set temp_queue \<subseteq> set (request_queue s)"
    by simp
  have eq: "la_update_server_states env s = (s\<lparr>request_queue := refill temp_queue []\<rparr>, None)"
    using st dr by (simp add: la_update_server_states_def same)
  have "la_servers s \<noteq> [] \<longrightarrow> refill temp_queue [] = []"
  proof
    assume "la_servers s \<noteq> []"
    with assms have "request_queue s = []"
      by (auto simp: la_idle_def)
    with temp have "temp_queue = []" by simp
    then show "refill temp_queue [] = []" by simp
  qed
  moreover have "set (refill temp_queue []) \<subseteq> set (request_queue s)"
    using temp by (simp add: set_refill)
  moreover have "sorted (refill temp_queue [])"
    by (simp add: sorted_refill)
  ultimately show ?thesis
    using eq by blast
qed

lemma la_idle_requeue:
  assumes "la_idle s" and "set q \<subseteq> set (request_queue s)" and "sorted q"
    and "la_servers s \<noteq> [] \<longrightarrow> q = []"
  shows "la_idle (s\<lparr>request_queue := q\<rparr>)"
  using assms by (auto simp: la_idle_def list_all_iff)

lemma sweep_keeps_idle: "la_idle s \<Longrightarrow> la_idle (fst (la_update_server_states env s))"
  using sweep_idle [of s env] la_idle_requeue [of s] by auto

lemma assign_keeps_idle:
  assumes "la_idle s"
  shows "la_idle (fst (la_assign_request env s request_size priority))"
proof -
  from sweep_idle [OF assms, of env] obtain q where
    sw: "la_update_server_states env s = (s\<lparr>request_queue := q\<rparr>, None)"
    and q: "set q \<subseteq> set (request_queue s)" "sorted q" "la_servers s \<noteq> [] \<longrightarrow> q = []"
    by blast
  from la_idle_requeue [OF assms q] have idle1: "la_idle (s\<lparr>request_queue := q\<rparr>)" .
  then have av: "assign_available (la_servers s)
      = (if la_servers s = [] then Inr [] else Inl NameError)"
    by (simp add: la_idle_def assign_available_idle)
  show ?thesis
  proof (cases "la_servers s = []")
    case True
    with idle1 sw av show ?thesis
      by (auto simp: la_assign_request_def Let_def la_idle_def list_all_iff set_pq_put
          sorted_pq_put entry_id_def)
  next
    case False
    with idle1 sw av show ?thesis
      by (auto simp: la_assign_request_def Let_def la_idle_def list_all_iff)
  qed
qed

text \<open>With a server in the registry, every call of \<^verbatim>\<open>assign_request\<close> raises \<^verbatim>\<open>NameError\<close>.\<close>

lemma assign_raises:
  assumes "la_idle s" and "la_servers s \<noteq> []"
  shows "snd (la_assign_request env s request_size priority) = Inl NameError"
proof -
  from sweep_idle [OF assms(1), of env] obtain q where
    sw: "la_update_server_states env s = (s\<lparr>request_queue := q\<rparr>, None)"
    by blast
  from assms have "assign_available (la_servers s) = Inl NameError"
    by (simp add: la_idle_def assign_available_idle)
  with sw show ?thesis
    by (simp add: la_assign_request_def Let_def)
qed

lemma health_keeps_idle: "la_idle s \<Longrightarrow> la_idle (la_run_health_checks failed s)"
  by (auto simp: la_idle_def la_run_health_checks_def list_all_iff)

lemma init_idle: "la_idle (la_init servers timeout)"
  by (auto simp: la_idle_def la_init_def la_idle_server_def list_all_iff)

lemma step_keeps_idle: "la_step s t \<Longrightarrow> la_idle s \<Longrightarrow> la_idle t"
  by (induction rule: la_step.induct)
    (simp_all add: assign_keeps_idle sweep_keeps_idle health_keeps_idle)

lemma reachable_idle: "la_reachable s \<Longrightarrow> la_idle s"
  by (induction rule: la_reachable.induct) (simp_all add: init_idle step_keeps_idle)

lemma steps_reachable: "la_step\<^sup>*\<^sup>* s t \<Longrightarrow> la_reachable s \<Longrightarrow> la_reachable t"
  by (induction rule: rtranclp_induct) (auto intro: la_next)

lemma assign_queue_subset:
  "set (request_queue (fst (la_assign_request env s request_size priority)))
     \<subseteq> insert (priority, now_assign env, request_counter s + 1, request_size)
          (set (request_queue s))"
proof -
  obtain s1 err where sw: "la_update_server_states env s = (s1, err)"
    by (metis surj_pair)
  from sweep_queue_subset [of env s] sweep_counter [of env s] sw
  have "set (request_queue s1) \<subseteq> set (request_queue s)" "request_counter s1 = request_counter s"
    by simp_all
  with sw show ?thesis
    by (auto simp: la_assign_request_def Let_def set_pq_put
        split: option.splits sum.splits list.splits)
qed

lemma assign_counter:
  "request_counter s \<le> request_counter (fst (la_assign_request env s request_size priority))"
proof -
  obtain s1 err where sw: "la_update_server_states env s = (s1, err)"
    by (metis surj_pair)
  from sweep_counter [of env s] sw have "request_counter s1 = request_counter s"
    by simp
  with sw show ?thesis
    by (auto simp: la_assign_request_def Let_def split: option.splits sum.splits list.splits)
qed

text \<open>
  An entry that has left the queue, with an id already handed out, does not come back:
  new entries take the next value of the counter.
\<close>

lemma step_keeps_absent:
  assumes "la_step s t" and "e \<notin> set (request_queue s)" and "entry_id e \<le> request_counter s"
  shows "e \<notin> set (request_queue t) \<and> entry_id e \<le> request_counter t"
  using assms
proof (induction rule: la_step.induct)
  case (step_assign s env request_size priority)
  have "e \<noteq> (priority, now_assign env, request_counter s + 1, request_size)"
    using step_assign.prems(2) by (auto simp: entry_id_def)
  with step_assign.prems assign_queue_subset [of env s request_size priority]
    assign_counter [of s env request_size priority]
  show ?case by auto
next
  case (step_sweep s env)
  with sweep_queue_subset [of env s] sweep_counter [of env s] show ?case
    by auto
next
  case (step_health s failed)
  then show ?case by (simp add: la_run_health_checks_def)
qed

lemma steps_keep_absent:
  assumes "la_step\<^sup>*\<^sup>* s t" and "e \<notin> set (request_queue s)" and "entry_id e \<le> request_counter s"
  shows "e \<notin> set (request_queue t) \<and> entry_id e \<le> request_counter t"
  using assms
  by (induction rule: rtranclp_induct) (auto dest: step_keeps_absent)

lemma min_from_least: "x \<in> insert best (set xs) \<Longrightarrow> key (min_from key best xs) \<le> key x"
proof (induction xs arbitrary: best x)
  case Nil
  then show ?case by simp
next
  case (Cons y ys)
  let ?b = "if key y < key best then y else best"
  have kept: "key (min_from key ?b ys) \<le> key ?b"
    using Cons.IH [where best = ?b and x = ?b] by simp
  have rest: "key (min_from key ?b ys) \<le> key x" if "x \<in> set ys"
    using Cons.IH [where best = ?b and x = x] that by simp
  from Cons.prems consider "x = best" | "x = y" | "x \<in> set ys"
    by auto
  then show ?case
  proof cases
    case 1
    with kept show ?thesis by (auto split: if_splits)
  next
    case 2
    with kept show ?thesis by (auto split: if_splits)
  next
    case 3
    with rest show ?thesis by simp
  qed
qed

text \<open>
  What the \<^verbatim>\<open>min\<close> of the sweep picks among feasible servers of non-zero capacity: a
  feasible server whose pair of resulting load ratio and number of active requests is
  least.
\<close>

lemma select_server_least:
  assumes "available_servers s req_size = first # others"
    and "select_server req_size first others = Inr server_name"
  shows "\<exists>data. (server_name, data) \<in> set (available_servers s req_size) \<and>
           (\<forall>x \<in> set (available_servers s req_size).
              load_key req_size (server_name, data) \<le> load_key req_size x)"
proof -
  let ?chosen = "min_from (load_key req_size) first others"
  from assms(2) have name: "server_name = fst ?chosen"
    by (simp add: select_server_def split: if_splits)
  have "?chosen \<in> set (first # others)"
    using min_from_mem [of "load_key req_size" first others] by simp
  moreover have "\<forall>x \<in> set (first # others). load_key req_size ?chosen \<le> load_key req_size x"
    using min_from_least [of _ first others "load_key req_size"] by simp
  ultimately show ?thesis
    using assms(1) name by (intro exI [of _ "snd ?chosen"]) simp
qed

lemma entry_le_dequeues_before:
  fixes e e' :: entry
  shows "e \<le> e' \<Longrightarrow> dequeues_before e e'"
  by (auto simp: dequeues_before_def entry_priority_def entry_time_def entry_id_def
      less_eq_prod_def)

lemma sweep_keeps_live:
  assumes "la_idle s" and "e \<in> set (request_queue s)"
    and "\<forall>j. \<not> now_loop env j - entry_time e > request_timeout s"
  shows "e \<in> set (request_queue (fst (la_update_server_states env s)))"
proof -
  from assms(1,2) have srv: "la_servers s = []"
    by (auto simp: la_idle_def)
  from assms(1) have st: "settle_servers (now_sweep env) (la_servers s) (completed_requests s)
      = ((la_servers s, completed_requests s), None)"
    by (simp add: la_idle_def settle_servers_idle)
  have same: "s\<lparr>la_servers := la_servers s, completed_requests := completed_requests s\<rparr> = s"
    by simp
  from drain_queue_no_servers [OF srv, of env 0 "request_queue s" "[]"] obtain temp_queue where
    dr: "drain_queue env 0 (request_queue s) s [] = ((s\<lparr>request_queue := []\<rparr>, temp_queue), None)"
    by blast
  from assms(2) have "e \<in> set (request_queue s) \<union> set []"
    by simp
  from drain_queue_keeps [OF srv dr assms(3) this] have "e \<in> set temp_queue" .
  with st dr show ?thesis
    by (simp add: la_update_server_states_def same set_refill)
qed

lemma stranded_reachable: "la_reachable stranded"
proof -
  have "la_reachable (la_init [(''A'', 100)] 5)"
    by (rule la_start) simp
  then have "la_reachable (la_run_health_checks (\<lambda>server. True) (la_init [(''A'', 100)] 5))"
    by (rule la_next) (rule step_health)
  then show ?thesis
    unfolding stranded_def by (rule la_next) (rule step_assign)
qed

lemma stranded_eq:
  "stranded = \<lparr>la_servers = [], request_queue = [(1, 0, 1, 500)], request_timeout = 5,
                request_counter = 1, completed_requests = {}\<rparr>"
  by (simp add: stranded_def la_assign_request_def la_update_server_states_def la_init_def
      la_run_health_checks_def clock_at_def pq_put_def Let_def)

section \<open>Load-Aware: the claims\<close>

text \<open>
  C1. In every state the router reaches with a server in its registry, \<^verbatim>\<open>assign_request\<close>
  does not return a placed or queued result: it raises \<^verbatim>\<open>NameError\<close>, whatever the size, the
  priority and the clock. The counter has been advanced by then.
\<close>

theorem la_assign_request_raises:
  assumes "la_reachable s" and "la_servers s \<noteq> []"
  shows "snd (la_assign_request env s request_size priority) = Inl NameError \<and>
         request_counter (fst (la_assign_request env s request_size priority))
           = request_counter s + 1"
proof -
  from assms(1) have idle: "la_idle s" by (rule reachable_idle)
  from sweep_idle [OF idle, of env] obtain q where
    sw: "la_update_server_states env s = (s\<lparr>request_queue := q\<rparr>, None)"
    by blast
  from idle assms(2) have "assign_available (la_servers s) = Inl NameError"
    by (simp add: la_idle_def assign_available_idle)
  with sw show ?thesis
    by (simp add: la_assign_request_def Let_def)
qed

theorem la_assign_request_raises_witness:
  "la_reachable (la_init [(''web-01'', 100), (''web-02'', 150), (''web-03'', 400)] 5) \<and>
   la_servers (la_init [(''web-01'', 100), (''web-02'', 150), (''web-03'', 400)] 5) \<noteq> [] \<and>
   snd (la_assign_request (clock_at 0)
          (la_init [(''web-01'', 100), (''web-02'', 150), (''web-03'', 400)] 5) 50 1)
     = Inl NameError"
proof -
  have r: "la_reachable (la_init [(''web-01'', 100), (''web-02'', 150), (''web-03'', 400)] 5)"
    by (rule la_start) simp
  have n: "la_servers (la_init [(''web-01'', 100), (''web-02'', 150), (''web-03'', 400)] 5) \<noteq> []"
    by (simp add: la_init_def)
  from la_assign_request_raises [OF r n] r n show ?thesis
    by blast
qed

text \<open>
  C2. In every state of a Least-Connections router and in every state of a Load-Aware
  router, the current load of each server is the sum of the sizes of its active
  requests.
\<close>

theorem current_load_is_sum:
  "(lc_reachable s \<longrightarrow>
      (\<forall>(name, data) \<in> set (lc_servers s).
         lc_current_load data = sum_list (map snd (lc_active_requests data))))
   \<and> (la_reachable t \<longrightarrow>
      (\<forall>(name, data) \<in> set (la_servers t).
         la_current_load data
           = sum_list (map (\<lambda>(req_id, (end_time, sz)). sz) (la_active_requests data))))"
proof (intro conjI impI)
  assume "lc_reachable s"
  then show "\<forall>(name, data) \<in> set (lc_servers s).
      lc_current_load data = sum_list (map snd (lc_active_requests data))"
    using lc_reachable_load [of s] by (simp add: lc_load_ok_def)
next
  assume "la_reachable t"
  then have "la_idle t" by (rule reachable_idle)
  then show "\<forall>(name, data) \<in> set (la_servers t).
      la_current_load data
        = sum_list (map (\<lambda>(req_id, (end_time, sz)). sz) (la_active_requests data))"
    by (auto simp: la_idle_def la_idle_server_def list_all_iff)
qed

theorem current_load_is_sum_witness:
  "lc_reachable (fst (lc_assign_request 0 1 (lc_init [(''A'', 100), (''B'', 150)]) 50)) \<and>
   la_reachable (fst (la_assign_request (clock_at 0) (la_init [(''A'', 100), (''B'', 150)] 5) 50 1)) \<and>
   list_all (\<lambda>(name, data). lc_current_load data = sum_list (map snd (lc_active_requests data)))
     (lc_servers (fst (lc_assign_request 0 1 (lc_init [(''A'', 100), (''B'', 150)]) 50))) \<and>
   list_all (\<lambda>(name, data). la_current_load data
        = sum_list (map (\<lambda>(req_id, (end_time, sz)). sz) (la_active_requests data)))
     (la_servers (fst (la_assign_request (clock_at 0) (la_init [(''A'', 100), (''B'', 150)] 5) 50 1)))"
proof -
  have "lc_reachable (lc_init [(''A'', 100), (''B'', 150)])"
    by (rule lc_start) simp
  then have r1: "lc_reachable (fst (lc_assign_request 0 1 (lc_init [(''A'', 100), (''B'', 150)]) 50))"
    by (rule lc_assign)
  have "la_reachable (la_init [(''A'', 100), (''B'', 150)] 5)"
    by (rule la_start) simp
  then have r2: "la_reachable
      (fst (la_assign_request (clock_at 0) (la_init [(''A'', 100), (''B'', 150)] 5) 50 1))"
    by (rule la_next) (rule step_assign)
  from current_load_is_sum
    [of "fst (lc_assign_request 0 1 (lc_init [(''A'', 100), (''B'', 150)]) 50)"
        "fst (la_assign_request (clock_at 0) (la_init [(''A'', 100), (''B'', 150)] 5) 50 1)"] r1 r2
  show ?thesis
    unfolding list_all_iff by blast
qed



text \<open>
  C6. On a fresh router over \<open>{A:100, B:150, C:400}\<close> every server is feasible for a request
  of size 50, and the pair of load ratio and number of active requests is least at C
  (\<open>select_server\<close>, the \<^verbatim>\<open>min\<close> the sweep uses, picks it). \<^verbatim>\<open>assign_request\<close> chooses no server:
  it raises \<^verbatim>\<open>NameError\<close> with the counter advanced and nothing placed.
\<close>

theorem la_assign_request_no_choice:
  "available_servers (la_init [(''A'', 100), (''B'', 150), (''C'', 400)] 5) 50
     = la_servers (la_init [(''A'', 100), (''B'', 150), (''C'', 400)] 5) \<and>
   (case la_servers (la_init [(''A'', 100), (''B'', 150), (''C'', 400)] 5) of
      first # others \<Rightarrow> select_server 50 first others = Inr ''C'') \<and>
   la_assign_request env (la_init [(''A'', 100), (''B'', 150), (''C'', 400)] 5) 50 1
     = ((la_init [(''A'', 100), (''B'', 150), (''C'', 400)] 5)\<lparr>request_counter := 1\<rparr>,
        Inl NameError)"
  by (simp add: la_init_def available_servers_def select_server_def load_key_def
      la_assign_request_def la_update_server_states_def Let_def)

text \<open>
  C7. In a state the router reaches, a sweep drops every queue entry that is older than
  the timeout at each clock reading of the sweep: the sweep raises nothing and leaves the
  registry as it was, the entry is not in the queue it leaves, and in no state reached
  afterwards is the entry back in the queue, its id among the active requests of a
  server, or its id in the set of completed requests.
\<close>

theorem expired_entry_is_dropped:
  assumes "la_reachable s" and "e \<in> set (request_queue s)"
    and "\<forall>j. now_loop env j - entry_time e > request_timeout s"
  shows "snd (la_update_server_states env s) = None \<and>
         la_servers (fst (la_update_server_states env s)) = la_servers s \<and>
         e \<notin> set (request_queue (fst (la_update_server_states env s))) \<and>
         (\<forall>t. la_step\<^sup>*\<^sup>* (fst (la_update_server_states env s)) t \<longrightarrow>
            e \<notin> set (request_queue t) \<and>
            entry_id e \<notin> completed_requests t \<and>
            (\<forall>(name, data) \<in> set (la_servers t).
               entry_id e \<notin> fst ` set (la_active_requests data)))"
proof -
  let ?s1 = "fst (la_update_server_states env s)"
  from assms(1) have idle: "la_idle s" by (rule reachable_idle)
  from sweep_idle [OF idle, of env] have ok: "snd (la_update_server_states env s) = None"
    and srv: "la_servers ?s1 = la_servers s"
    by auto
  from sweep_drops_expired [OF ok assms(3)] have gone: "e \<notin> set (request_queue ?s1)" .
  from idle assms(2) have "entry_id e \<le> request_counter s"
    by (auto simp: la_idle_def list_all_iff)
  then have known: "entry_id e \<le> request_counter ?s1"
    by (simp add: sweep_counter)
  have r1: "la_reachable ?s1"
    using assms(1) by (rule la_next) (rule step_sweep)
  have later: "e \<notin> set (request_queue t) \<and> entry_id e \<notin> completed_requests t \<and>
      (\<forall>(name, data) \<in> set (la_servers t). entry_id e \<notin> fst ` set (la_active_requests data))"
    if "la_step\<^sup>*\<^sup>* ?s1 t" for t
  proof -
    from steps_keep_absent [OF that gone known] have "e \<notin> set (request_queue t)"
      by simp
    moreover from steps_reachable [OF that r1] have "la_idle t"
      by (rule reachable_idle)
    then have "completed_requests t = {}"
      and "\<forall>(name, data) \<in> set (la_servers t). la_active_requests data = []"
      by (auto simp: la_idle_def la_idle_server_def list_all_iff)
    ultimately show ?thesis by fastforce
  qed
  from ok srv gone later show ?thesis
    by blast
qed

theorem expired_entry_is_dropped_witness:
  "la_reachable stranded \<and> (1, 0, 1, 500) \<in> set (request_queue stranded) \<and>
   (\<forall>j. now_loop (clock_at 9) j - entry_time (1, 0, 1, 500) > request_timeout stranded) \<and>
   snd (la_update_server_states (clock_at 9) stranded) = None \<and>
   (1, 0, 1, 500) \<notin> set (request_queue (fst (la_update_server_states (clock_at 9) stranded)))"
proof -
  have mem: "(1, 0, 1, 500) \<in> set (request_queue stranded)"
    by (simp add: stranded_eq)
  have old: "\<forall>j. now_loop (clock_at 9) j - entry_time (1, 0, 1, 500) > request_timeout stranded"
    by (simp add: stranded_eq clock_at_def entry_time_def)
  from expired_entry_is_dropped [OF stranded_reachable mem old] stranded_reachable mem old
  show ?thesis by blast
qed

text \<open>
  C8. In every state the router reaches, the queue hands its entries out in ascending
  order of priority value, then arrival time, then request id. On any state, every entry
  of the queue a sweep leaves is an entry of the queue it found, as it was. An entry that
  is not expired and for which no server is feasible goes to the holding queue as it is;
  in a state the router reaches, an entry that is not expired at any reading of the sweep
  is in the queue the sweep leaves.
\<close>

theorem queue_order_kept:
  "(la_reachable s \<longrightarrow> sorted_wrt dequeues_before (request_queue s)) \<and>
   set (request_queue (fst (la_update_server_states env s))) \<subseteq> set (request_queue s) \<and>
   (\<not> clock - entry_time e > request_timeout s \<longrightarrow> available_servers s (entry_size e) = [] \<longrightarrow>
      sweep_entry clock completion_time s temp_queue e = ((s, pq_put e temp_queue), None) \<and>
      set (pq_put e temp_queue) = insert e (set temp_queue)) \<and>
   (la_reachable s \<longrightarrow> e \<in> set (request_queue s) \<longrightarrow>
      (\<forall>j. \<not> now_loop env j - entry_time e > request_timeout s) \<longrightarrow>
      e \<in> set (request_queue (fst (la_update_server_states env s))))"
proof (intro conjI impI)
  assume "la_reachable s"
  then have "la_idle s" by (rule reachable_idle)
  then have "sorted (request_queue s)"
    by (simp add: la_idle_def)
  then have "sorted_wrt (\<le>) (request_queue s)"
    by simp
  then show "sorted_wrt dequeues_before (request_queue s)"
    by (rule sorted_wrt_mono_rel [rotated]) (rule entry_le_dequeues_before)
next
  show "set (request_queue (fst (la_update_server_states env s))) \<subseteq> set (request_queue s)"
    by (rule sweep_queue_subset)
next
  assume "\<not> clock - entry_time e > request_timeout s"
    and "available_servers s (entry_size e) = []"
  then show "sweep_entry clock completion_time s temp_queue e = ((s, pq_put e temp_queue), None)"
    by (rule sweep_entry_infeasible)
next
  show "set (pq_put e temp_queue) = insert e (set temp_queue)"
    by (rule set_pq_put)
next
  assume "la_reachable s" and "e \<in> set (request_queue s)"
    and "\<forall>j. \<not> now_loop env j - entry_time e > request_timeout s"
  then show "e \<in> set (request_queue (fst (la_update_server_states env s)))"
    by (intro sweep_keeps_live reachable_idle)
qed

theorem queue_order_kept_witness:
  "la_reachable stranded \<and> (1, 0, 1, 500) \<in> set (request_queue stranded) \<and>
   (\<forall>j. \<not> now_loop (clock_at 3) j - entry_time (1, 0, 1, 500) > request_timeout stranded) \<and>
   available_servers stranded (entry_size (1, 0, 1, 500)) = [] \<and>
   sorted_wrt dequeues_before (request_queue stranded) \<and>
   sweep_entry 3 4 stranded [] (1, 0, 1, 500) = ((stranded, [(1, 0, 1, 500)]), None) \<and>
   (1, 0, 1, 500) \<in> set (request_queue (fst (la_update_server_states (clock_at 3) stranded)))"
proof -
  have mem: "(1, 0, 1, 500) \<in> set (request_queue stranded)"
    by (simp add: stranded_eq)
  have live: "\<forall>j. \<not> now_loop (clock_at 3) j - entry_time (1, 0, 1, 500) > request_timeout stranded"
    by (simp add: stranded_eq clock_at_def entry_time_def)
  have live1: "\<not> 3 - entry_time (1, 0, 1, 500) > request_timeout stranded"
    by (simp add: stranded_eq entry_time_def)
  have none: "available_servers stranded (entry_size (1, 0, 1, 500)) = []"
    by (simp add: stranded_eq available_servers_def)
  have put: "pq_put (1, 0, 1, 500) [] = [(1, 0, 1, 500)]"
    by (simp add: pq_put_def)
  from queue_order_kept [where s = stranded and env = "clock_at 3" and e = "(1, 0, 1, 500)"
      and clock = 3 and completion_time = 4 and temp_queue = "[]"]
    stranded_reachable mem live live1 none put
  show ?thesis by simp
qed

section \<open>Load-Aware: remarks\<close>

text \<open>
  The comprehension of \<^verbatim>\<open>assign_request\<close> never yields a feasible server, so the branch
  of \<open>la_assign_request\<close> that selects and places is never taken.
\<close>

lemma assign_available_empty: "assign_available servers = Inr found \<Longrightarrow> found = []"
  by (induction servers) (auto split: if_splits)

text \<open>
  A state no sequence of calls reaches (\<open>reachable_idle\<close>): two queued requests while a
  server has room. There the sweep files both requests under the value of the counter,
  the second entry replaces the first, and the load counts both.
\<close>

lemma sweep_files_under_counter:
  "fst (la_update_server_states (clock_at 0)
     \<lparr>la_servers = [(''A'', \<lparr>la_capacity = 100, la_active_requests = [],
                              la_current_load = 0, la_status = ''healthy''\<rparr>)],
      request_queue = [(1, 0, 1, 10), (1, 0, 2, 20)], request_timeout = 5,
      request_counter = 2, completed_requests = {}\<rparr>)
   = \<lparr>la_servers = [(''A'', \<lparr>la_capacity = 100, la_active_requests = [(2, 1, 20)],
                              la_current_load = 30, la_status = ''healthy''\<rparr>)],
      request_queue = [], request_timeout = 5, request_counter = 2,
      completed_requests = {}\<rparr>"
  by (simp add: la_update_server_states_def sweep_entry_def available_servers_def
      select_server_def load_key_def assign_to_server_def clock_at_def entry_time_def
      entry_size_def)

end
